theory Spec2Isabelle
  imports Main
begin

section \<open>The CPU fallback of the operator dispatcher (ATen/native/CPUFallback.cpp)\<close>

subsection \<open>Data model\<close>

text \<open>
  A tensor handle (\<^verbatim>\<open>at::Tensor\<close>) is either undefined or a reference to a tensor object.
  Tensor objects live in a store; an object carries the device it resides on and its data.
  The identity of a tensor is the address of its object.
\<close>

type_synonym tid = nat

datatype device = CPU | Backend nat

record 'd tensor_impl =
  dev :: device
  dat :: 'd

type_synonym 'd heap = "'d tensor_impl list"

datatype tensor = Undefined | Defined tid

fun defined :: "tensor \<Rightarrow> bool" where
  "defined Undefined = False"
| "defined (Defined a) = True"

text \<open>
  \<^verbatim>\<open>c10::AliasInfo\<close>: the write flag, the alias sets before and after the call and the
  annotations of contained types. Its \<^verbatim>\<open>operator==\<close> compares all four, which is
  the equality of this datatype.
\<close>

datatype alias_info =
  AliasInfo (isWrite: bool) (beforeSets: "string set") (afterSets: "string set")
    (containedTypes: "alias_info list")

record argument =
  arg_name :: string
  alias_info :: "alias_info option"

record function_schema =
  operator_name :: string
  arguments :: "argument list"
  returns :: "argument list"

datatype ivalue =
  ITensor tensor
| ITensorList "tensor list"
| INone
| IInt int
| IBool bool

text \<open>
  Failures. \<open>Failure m\<close> is the exception \<open>m\<close> thrown by an external service.
  \<open>SchemaInconsistency\<close> is the \<^verbatim>\<open>TORCH_CHECK(found_alias, ...)\<close> of the return loop; it
  carries the operator name and the schema entry of the return. \<open>OutOfRange\<close> marks an
  unchecked read past the end of the named vector, \<open>NoDevice\<close> the device query on a
  tensor that has none, \<open>InvalidSlice\<close> a call of \<^verbatim>\<open>torch::jit::last(stack, n)\<close> on a
  stack with fewer than \<open>n\<close> entries.
\<close>

datatype error =
  Failure string
| SchemaInconsistency string argument
| OutOfRange string
| NoDevice
| InvalidSlice

text \<open>
  The calls that leave the function, in the order they are made: the transfer primitive
  \<^verbatim>\<open>at::_to_cpu\<close> with its argument list, the redispatch to the CPU kernel, the copy
  primitive \<^verbatim>\<open>at::_copy_from_and_resize(self, dst)\<close>, \<^verbatim>\<open>Tensor::to(Device)\<close>, and the
  \<^verbatim>\<open>TORCH_WARN\<close> of the view case with the operator name and the device it prints.
\<close>

datatype event =
  Call_to_cpu "tensor list"
| Call_redispatchBoxed
| Call_copy_from_and_resize tensor tensor
| Call_to tensor device
| Warn_view_operator string device

record 'd state =
  stack :: "ivalue list"
  heap :: "'d heap"
  trace :: "event list"

text \<open>
  The services the file calls but does not define are parameters. Each one reads and
  updates the tensor store, or throws: \<open>Inl m\<close> is the exception \<open>m\<close>, which the caller
  sees as \<open>Failure m\<close>.
\<close>

record 'd services =
  at_to_cpu :: "tensor list \<Rightarrow> 'd heap \<Rightarrow> string + (tensor list \<times> 'd heap)"
  redispatchBoxed :: "ivalue list \<Rightarrow> 'd heap \<Rightarrow> string + (ivalue list \<times> 'd heap)"
  at_copy_from_and_resize :: "tensor \<Rightarrow> tensor \<Rightarrow> 'd heap \<Rightarrow> string + 'd heap"
  Tensor_to :: "tensor \<Rightarrow> device \<Rightarrow> 'd heap \<Rightarrow> string + (tensor \<times> 'd heap)"

text \<open>
  \<^verbatim>\<open>Tensor::device()\<close>. Modelled from the spec: the tensor class is not part of the
  file; a tensor value is "either undefined (absent) or defined, carrying a device
  identity", so only a defined tensor has a device to report.
\<close>

definition tensor_device :: "'d heap \<Rightarrow> tensor \<Rightarrow> error + device" where
  "tensor_device h t =
     (case t of
        Undefined \<Rightarrow> Inl NoDevice
      | Defined a \<Rightarrow> if a < length h then Inr (dev (h ! a)) else Inl NoDevice)"

subsection \<open>to_cpu\<close>

text \<open>
  Lines 21-32: the first loop, over \<open>i = 0, ..., tensors.size() - 1\<close>. The triple is
  \<open>(cpu_tensors, valid_tensors, to_translate)\<close>.
\<close>

fun to_cpu_separate ::
  "tensor list \<Rightarrow> nat list \<Rightarrow> tensor list \<times> tensor list \<times> bool list \<Rightarrow>
   tensor list \<times> tensor list \<times> bool list" where
  "to_cpu_separate tensors [] acc = acc"
| "to_cpu_separate tensors (i # is) (cpu_tensors, valid_tensors, to_translate) =
     (let tensor = tensors ! i in
      if defined tensor
      then to_cpu_separate tensors is
             (cpu_tensors, valid_tensors @ [tensor], to_translate[i := True])
      else to_cpu_separate tensors is
             (cpu_tensors[i := tensor], valid_tensors, to_translate))"

text \<open>
  Lines 34-38: the second loop, with its counter \<open>defined_pos\<close>. The read
  \<open>cpu_valid_tensors[defined_pos]\<close> is unchecked in the source.
\<close>

fun to_cpu_fill ::
  "nat list \<Rightarrow> nat \<Rightarrow> bool list \<Rightarrow> tensor list \<Rightarrow> tensor list \<Rightarrow> error + tensor list" where
  "to_cpu_fill [] defined_pos to_translate cpu_valid_tensors cpu_tensors = Inr cpu_tensors"
| "to_cpu_fill (i # is) defined_pos to_translate cpu_valid_tensors cpu_tensors =
     (if to_translate ! i
      then (if defined_pos < length cpu_valid_tensors
            then to_cpu_fill is (Suc defined_pos) to_translate cpu_valid_tensors
                   (cpu_tensors[i := cpu_valid_tensors ! defined_pos])
            else Inl (OutOfRange ''cpu_valid_tensors''))
      else to_cpu_fill is defined_pos to_translate cpu_valid_tensors cpu_tensors)"

definition to_cpu ::
  "'d services \<Rightarrow> tensor list \<Rightarrow> 'd state \<Rightarrow> (error + tensor list) \<times> 'd state" where
  "to_cpu P tensors s =
     (let n = length tensors;
          (cpu_tensors, valid_tensors, to_translate) =
             to_cpu_separate tensors [0..<n] (replicate n Undefined, [], replicate n False);
          s1 = s\<lparr>trace := trace s @ [Call_to_cpu valid_tensors]\<rparr>
      in case at_to_cpu P valid_tensors (heap s) of
           Inl m \<Rightarrow> (Inl (Failure m), s1)
         | Inr (cpu_valid_tensors, h) \<Rightarrow>
             (case to_cpu_fill [0..<n] 0 to_translate cpu_valid_tensors cpu_tensors of
                Inl e \<Rightarrow> (Inl e, s1\<lparr>heap := h\<rparr>)
              | Inr r \<Rightarrow> (Inr r, s1\<lparr>heap := h\<rparr>)))"

subsection \<open>cpu_fallback\<close>

definition is_write_alias :: "alias_info option \<Rightarrow> bool" where
  "is_write_alias a = (case a of None \<Rightarrow> False | Some i \<Rightarrow> isWrite i)"

definition is_read_alias :: "alias_info option \<Rightarrow> bool" where
  "is_read_alias a = (case a of None \<Rightarrow> False | Some i \<Rightarrow> \<not> isWrite i)"

text \<open>
  Step 1, lines 54-66: the loop over the arguments. A tensor is recorded with its index; a
  tensor list is converted by \<open>to_cpu\<close> and written back; anything else is left alone.
  The result is \<open>(tensor_args, tensor_args_indices)\<close>.
\<close>

fun step1_gather ::
  "'d services \<Rightarrow> nat \<Rightarrow> nat list \<Rightarrow> tensor list \<times> nat list \<Rightarrow> 'd state \<Rightarrow>
   (error + tensor list \<times> nat list) \<times> 'd state" where
  "step1_gather P arguments_begin [] acc s = (Inr acc, s)"
| "step1_gather P arguments_begin (idx # idxs) (tensor_args, tensor_args_indices) s =
     (case stack s ! (arguments_begin + idx) of
        ITensor t \<Rightarrow>
          step1_gather P arguments_begin idxs
            (tensor_args @ [t], tensor_args_indices @ [idx]) s
      | ITensorList ts \<Rightarrow>
          (case to_cpu P ts s of
             (Inl e, s') \<Rightarrow> (Inl e, s')
           | (Inr cpu_ivalue, s') \<Rightarrow>
               step1_gather P arguments_begin idxs (tensor_args, tensor_args_indices)
                 (s'\<lparr>stack := (stack s')[arguments_begin + idx := ITensorList cpu_ivalue]\<rparr>))
      | _ \<Rightarrow> step1_gather P arguments_begin idxs (tensor_args, tensor_args_indices) s)"

text \<open>Lines 70-73: the relocated tensors go to the stack slots of the originals.\<close>

fun step1_put ::
  "nat \<Rightarrow> nat list \<Rightarrow> tensor list \<Rightarrow> nat list \<Rightarrow> ivalue list \<Rightarrow> ivalue list" where
  "step1_put arguments_begin tensor_args_indices cpu_tensors [] stk = stk"
| "step1_put arguments_begin tensor_args_indices cpu_tensors (i # is) stk =
     (let idx = tensor_args_indices ! i in
      step1_put arguments_begin tensor_args_indices cpu_tensors is
        (stk[arguments_begin + idx := ITensor (cpu_tensors ! i)]))"

text \<open>Step 2, line 76: the CPU kernel of the operator, on the whole stack.\<close>

definition step2_redispatch :: "'d services \<Rightarrow> 'd state \<Rightarrow> error option \<times> 'd state" where
  "step2_redispatch P s =
     (let s1 = s\<lparr>trace := trace s @ [Call_redispatchBoxed]\<rparr> in
      case redispatchBoxed P (stack s) (heap s) of
        Inl m \<Rightarrow> (Some (Failure m), s1)
      | Inr (stk, h) \<Rightarrow> (None, s1\<lparr>stack := stk, heap := h\<rparr>))"

text \<open>Step 3, lines 81-87: copy the CPU data back into the inputs that are mutable aliases.\<close>

fun step3_copy_back ::
  "'d services \<Rightarrow> argument list \<Rightarrow> tensor list \<Rightarrow> nat list \<Rightarrow> tensor list \<Rightarrow> nat list \<Rightarrow>
   'd state \<Rightarrow> error option \<times> 'd state" where
  "step3_copy_back P schema_args tensor_args tensor_args_indices cpu_tensors [] s = (None, s)"
| "step3_copy_back P schema_args tensor_args tensor_args_indices cpu_tensors (i # is) s =
     (let tensor_idx = tensor_args_indices ! i;
          ainfo = alias_info (schema_args ! tensor_idx)
      in if is_write_alias ainfo
         then (let s1 = s\<lparr>trace := trace s @
                          [Call_copy_from_and_resize (cpu_tensors ! i) (tensor_args ! i)]\<rparr>
               in case at_copy_from_and_resize P (cpu_tensors ! i) (tensor_args ! i) (heap s) of
                    Inl m \<Rightarrow> (Some (Failure m), s1)
                  | Inr h \<Rightarrow>
                      step3_copy_back P schema_args tensor_args tensor_args_indices cpu_tensors
                        is (s1\<lparr>heap := h\<rparr>))
         else step3_copy_back P schema_args tensor_args tensor_args_indices cpu_tensors is s)"

text \<open>
  Lines 119-133: the search for the input that aliases a mutable return. It yields the
  index \<open>i\<close> at which the loop breaks, or \<open>None\<close> when \<open>found_alias\<close> stays false.
\<close>

fun find_alias ::
  "argument list \<Rightarrow> alias_info option \<Rightarrow> nat list \<Rightarrow> tensor list \<Rightarrow> nat list \<Rightarrow> nat option" where
  "find_alias schema_args ainfo tensor_args_indices cpu_tensors [] = None"
| "find_alias schema_args ainfo tensor_args_indices cpu_tensors (i # is) =
     (let input_tensor_idx = tensor_args_indices ! i;
          input_tensor = cpu_tensors ! i;
          input_alias_info = alias_info (schema_args ! input_tensor_idx)
      in if defined input_tensor \<and> ainfo = input_alias_info
         then Some i
         else find_alias schema_args ainfo tensor_args_indices cpu_tensors is)"

text \<open>
  \<open>tensor_args[0].device()\<close>, lines 141 and 147: an unchecked read of the first recorded
  tensor argument, then its device.
\<close>

definition first_arg_device :: "'d heap \<Rightarrow> tensor list \<Rightarrow> error + device" where
  "first_arg_device h tensor_args =
     (if 0 < length tensor_args then tensor_device h (tensor_args ! 0)
      else Inl (OutOfRange ''tensor_args''))"

text \<open>
  Lines 146-148, case (2): copy the CPU output tensor \<open>returns[idx].toTensor()\<close> to the
  original device.
\<close>

definition copy_case ::
  "'d services \<Rightarrow> tensor list \<Rightarrow> nat \<Rightarrow> nat \<Rightarrow> tensor \<Rightarrow> 'd state \<Rightarrow>
   error option \<times> 'd state" where
  "copy_case P tensor_args returns_begin idx return_tens s =
     (case first_arg_device (heap s) tensor_args of
        Inl e \<Rightarrow> (Some e, s)
      | Inr tgt_device \<Rightarrow>
          (let s1 = s\<lparr>trace := trace s @ [Call_to return_tens tgt_device]\<rparr> in
           case Tensor_to P return_tens tgt_device (heap s) of
             Inl m \<Rightarrow> (Some (Failure m), s1)
           | Inr (r, h) \<Rightarrow>
               (None, s1\<lparr>stack := (stack s1)[returns_begin + idx := ITensor r],
                         heap := h\<rparr>)))"

text \<open>Lines 112-151: the body of the loop over the returns, for the return \<open>idx\<close>.\<close>

definition resolve_return ::
  "'d services \<Rightarrow> function_schema \<Rightarrow> tensor list \<Rightarrow> nat list \<Rightarrow> tensor list \<Rightarrow> nat \<Rightarrow> nat \<Rightarrow>
   'd state \<Rightarrow> error option \<times> 'd state" where
  "resolve_return P schema tensor_args tensor_args_indices cpu_tensors returns_begin idx s =
     (case stack s ! (returns_begin + idx) of
        ITensor return_tens \<Rightarrow>
          if defined return_tens
          then (let ainfo = alias_info (returns schema ! idx) in
                if is_write_alias ainfo
                then (case find_alias (arguments schema) ainfo tensor_args_indices
                             cpu_tensors [0..<length tensor_args_indices] of
                        Some i \<Rightarrow>
                          (None, s\<lparr>stack := (stack s)[returns_begin + idx :=
                                                      ITensor (tensor_args ! i)]\<rparr>)
                      | None \<Rightarrow>
                          (Some (SchemaInconsistency (operator_name schema)
                                   (returns schema ! idx)), s))
                else if is_read_alias ainfo
                then (case first_arg_device (heap s) tensor_args of
                        Inl e \<Rightarrow> (Some e, s)
                      | Inr tgt_device \<Rightarrow>
                          copy_case P tensor_args returns_begin idx return_tens
                            (s\<lparr>trace := trace s @
                                 [Warn_view_operator (operator_name schema) tgt_device]\<rparr>))
                else copy_case P tensor_args returns_begin idx return_tens s)
          else (None, s)
      | _ \<Rightarrow> (None, s))"

text \<open>Step 4, lines 111-152: the loop over the returns.\<close>

fun step4_returns ::
  "'d services \<Rightarrow> function_schema \<Rightarrow> tensor list \<Rightarrow> nat list \<Rightarrow> tensor list \<Rightarrow> nat \<Rightarrow>
   nat list \<Rightarrow> 'd state \<Rightarrow> error option \<times> 'd state" where
  "step4_returns P schema tensor_args tensor_args_indices cpu_tensors returns_begin [] s =
     (None, s)"
| "step4_returns P schema tensor_args tensor_args_indices cpu_tensors returns_begin
     (idx # idxs) s =
     (case resolve_return P schema tensor_args tensor_args_indices cpu_tensors returns_begin
             idx s of
        (Some e, s') \<Rightarrow> (Some e, s')
      | (None, s') \<Rightarrow>
          step4_returns P schema tensor_args tensor_args_indices cpu_tensors returns_begin
            idxs s')"

text \<open>
  Steps 1 and 2, lines 44-76. The result is \<open>(tensor_args, tensor_args_indices,
  cpu_tensors)\<close>, the three vectors that the later steps read, with the state the CPU
  kernel leaves.
\<close>

definition steps_1_to_2 ::
  "'d services \<Rightarrow> function_schema \<Rightarrow> 'd state \<Rightarrow>
   (error + tensor list \<times> nat list \<times> tensor list) \<times> 'd state" where
  "steps_1_to_2 P schema s =
     (let schema_args = arguments schema;
          num_arguments = length schema_args
      in if length (stack s) < num_arguments then (Inl InvalidSlice, s)
         else
           (let arguments_begin = length (stack s) - num_arguments in
            case step1_gather P arguments_begin [0..<num_arguments] ([], []) s of
              (Inl e, s1) \<Rightarrow> (Inl e, s1)
            | (Inr (tensor_args, tensor_args_indices), s1) \<Rightarrow>
                (case to_cpu P tensor_args s1 of
                   (Inl e, s2) \<Rightarrow> (Inl e, s2)
                 | (Inr cpu_tensors, s2) \<Rightarrow>
                     (let s3 = s2\<lparr>stack := step1_put arguments_begin tensor_args_indices
                                    cpu_tensors [0..<length tensor_args_indices] (stack s2)\<rparr>
                      in case step2_redispatch P s3 of
                           (Some e, s4) \<Rightarrow> (Inl e, s4)
                         | (None, s4) \<Rightarrow>
                             (Inr (tensor_args, tensor_args_indices, cpu_tensors), s4)))))"

text \<open>Steps 1 to 3, lines 44-87.\<close>

definition steps_1_to_3 ::
  "'d services \<Rightarrow> function_schema \<Rightarrow> 'd state \<Rightarrow>
   (error + tensor list \<times> nat list \<times> tensor list) \<times> 'd state" where
  "steps_1_to_3 P schema s =
     (case steps_1_to_2 P schema s of
        (Inl e, s4) \<Rightarrow> (Inl e, s4)
      | (Inr (tensor_args, tensor_args_indices, cpu_tensors), s4) \<Rightarrow>
          (case step3_copy_back P (arguments schema) tensor_args tensor_args_indices
                  cpu_tensors [0..<length tensor_args_indices] s4 of
             (Some e, s5) \<Rightarrow> (Inl e, s5)
           | (None, s5) \<Rightarrow> (Inr (tensor_args, tensor_args_indices, cpu_tensors), s5)))"

text \<open>
  The whole function. The result is the exception that left it, if any, and the state it
  leaves behind: the stack, the tensor store and the calls made.
\<close>

definition cpu_fallback ::
  "'d services \<Rightarrow> function_schema \<Rightarrow> 'd state \<Rightarrow> error option \<times> 'd state" where
  "cpu_fallback P schema s =
     (case steps_1_to_3 P schema s of
        (Inl e, s5) \<Rightarrow> (Some e, s5)
      | (Inr (tensor_args, tensor_args_indices, cpu_tensors), s5) \<Rightarrow>
          (let num_returns = length (returns schema) in
           if length (stack s5) < num_returns then (Some InvalidSlice, s5)
           else step4_returns P schema tensor_args tensor_args_indices cpu_tensors
                  (length (stack s5) - num_returns) [0..<num_returns] s5))"

subsection \<open>Vocabulary of the properties\<close>

text \<open>\<^verbatim>\<open>IValue::isTensor()\<close>.\<close>

definition isTensor :: "ivalue \<Rightarrow> bool" where
  "isTensor v = (case v of ITensor t \<Rightarrow> True | _ \<Rightarrow> False)"

text \<open>Some argument of the call, on top of the stack, is a tensor.\<close>

definition has_tensor_argument :: "function_schema \<Rightarrow> ivalue list \<Rightarrow> bool" where
  "has_tensor_argument schema stk \<longleftrightarrow>
     (\<exists>idx<length (arguments schema).
        isTensor (stk ! (length stk - length (arguments schema) + idx)))"









text \<open>
  The service behind the event \<open>ev\<close> throws \<open>m\<close> on the arguments the event records
  (in some store).
\<close>

definition service_threw :: "'d services \<Rightarrow> string \<Rightarrow> event \<Rightarrow> bool" where
  "service_threw P m ev =
     (case ev of
        Call_to_cpu ts \<Rightarrow> (\<exists>h. at_to_cpu P ts h = Inl m)
      | Call_redispatchBoxed \<Rightarrow> (\<exists>stk h. redispatchBoxed P stk h = Inl m)
      | Call_copy_from_and_resize src dst \<Rightarrow> (\<exists>h. at_copy_from_and_resize P src dst h = Inl m)
      | Call_to t d \<Rightarrow> (\<exists>h. Tensor_to P t d h = Inl m)
      | Warn_view_operator n d \<Rightarrow> False)"

text \<open>The error is the exception thrown by the last call made.\<close>

definition thrown_by_last_call :: "'d services \<Rightarrow> error \<Rightarrow> 'd state \<Rightarrow> bool" where
  "thrown_by_last_call P e s \<longleftrightarrow>
     (\<exists>m. e = Failure m \<and> trace s \<noteq> [] \<and> service_threw P m (last (trace s)))"

subsection \<open>An instance of the services, for running the model on concrete calls\<close>

text \<open>
  The transfer primitive allocates, for each tensor of its list, a CPU tensor with the
  same data, and rejects an undefined tensor. The copy primitive overwrites the data of
  the destination. \<open>to\<close> allocates a tensor on the device asked for.
\<close>

fun host_to_cpu :: "tensor list \<Rightarrow> 'd heap \<Rightarrow> string + (tensor list \<times> 'd heap)" where
  "host_to_cpu [] h = Inr ([], h)"
| "host_to_cpu (Undefined # ts) h = Inl ''undefined tensor''"
| "host_to_cpu (Defined a # ts) h =
     (if a < length h
      then (case host_to_cpu ts (h @ [\<lparr>dev = CPU, dat = dat (h ! a)\<rparr>]) of
              Inl e \<Rightarrow> Inl e
            | Inr (r, h') \<Rightarrow> Inr (Defined (length h) # r, h'))
      else Inl ''dangling tensor'')"

definition host_copy :: "tensor \<Rightarrow> tensor \<Rightarrow> 'd heap \<Rightarrow> string + 'd heap" where
  "host_copy src dst h =
     (case (src, dst) of
        (Defined a, Defined b) \<Rightarrow>
          if a < length h \<and> b < length h then Inr (h[b := (h ! b)\<lparr>dat := dat (h ! a)\<rparr>])
          else Inl ''dangling tensor''
      | _ \<Rightarrow> Inl ''undefined tensor'')"

definition host_to :: "tensor \<Rightarrow> device \<Rightarrow> 'd heap \<Rightarrow> string + (tensor \<times> 'd heap)" where
  "host_to t d h =
     (case t of
        Defined a \<Rightarrow>
          if a < length h then Inr (Defined (length h), h @ [\<lparr>dev = d, dat = dat (h ! a)\<rparr>])
          else Inl ''dangling tensor''
      | Undefined \<Rightarrow> Inl ''undefined tensor'')"

text \<open>
  The CPU kernel of \<^verbatim>\<open>add_(Tensor(a!) self, Tensor other) -> Tensor(a!)\<close> on integer data:
  it pops both arguments, adds \<open>other\<close> to \<open>self\<close> in place and pushes \<open>self\<close>.
\<close>

definition add_kernel :: "ivalue list \<Rightarrow> int heap \<Rightarrow> string + (ivalue list \<times> int heap)" where
  "add_kernel stk h =
     (case rev stk of
        ITensor (Defined b) # ITensor (Defined a) # rest \<Rightarrow>
          if a < length h \<and> b < length h
          then Inr (rev rest @ [ITensor (Defined a)],
                    h[a := (h ! a)\<lparr>dat := dat (h ! a) + dat (h ! b)\<rparr>])
          else Inl ''dangling tensor''
      | _ \<Rightarrow> Inl ''bad arguments'')"

definition add_services :: "int services" where
  "add_services =
     \<lparr>at_to_cpu = host_to_cpu, redispatchBoxed = add_kernel,
      at_copy_from_and_resize = host_copy, Tensor_to = host_to\<rparr>"

text \<open>The annotations \<open>(a!)\<close>, \<open>(a)\<close> and \<open>(b!)\<close>.\<close>

definition alias_a_write :: "alias_info option" where
  "alias_a_write = Some (AliasInfo True {''a''} {''a''} [])"


definition alias_b_write :: "alias_info option" where
  "alias_b_write = Some (AliasInfo True {''b''} {''b''} [])"

text \<open>\<^verbatim>\<open>add_(Tensor(a!) self, Tensor other) -> Tensor(a!)\<close>.\<close>

definition add_schema :: function_schema where
  "add_schema =
     \<lparr>operator_name = ''aten::add_.Tensor'',
      arguments = [\<lparr>arg_name = ''self'', alias_info = alias_a_write\<rparr>,
                   \<lparr>arg_name = ''other'', alias_info = None\<rparr>],
      returns = [\<lparr>arg_name = [], alias_info = alias_a_write\<rparr>]\<rparr>"

text \<open>Two tensors on backend 0, with the data 10 and 32, above an unrelated stack entry.\<close>

definition add_state :: "int state" where
  "add_state =
     \<lparr>stack = [IInt 7, ITensor (Defined 0), ITensor (Defined 1)],
      heap = [\<lparr>dev = Backend 0, dat = 10\<rparr>, \<lparr>dev = Backend 0, dat = 32\<rparr>],
      trace = []\<rparr>"


definition add_state_step3 :: "int state" where
  "add_state_step3 =
     \<lparr>stack = [IInt 7, ITensor (Defined 2)],
      heap = [\<lparr>dev = Backend 0, dat = 42\<rparr>, \<lparr>dev = Backend 0, dat = 32\<rparr>,
              \<lparr>dev = CPU, dat = 42\<rparr>, \<lparr>dev = CPU, dat = 32\<rparr>],
      trace = [Call_to_cpu [Defined 0, Defined 1], Call_redispatchBoxed,
               Call_copy_from_and_resize (Defined 2) (Defined 0)]\<rparr>"

definition add_state_final :: "int state" where
  "add_state_final = add_state_step3\<lparr>stack := [IInt 7, ITensor (Defined 0)]\<rparr>"

text \<open>A schema whose mutable return \<open>b!\<close> has no counterpart among the arguments.\<close>

definition bad_schema :: function_schema where
  "bad_schema =
     \<lparr>operator_name = ''aten::bad_'',
      arguments = [\<lparr>arg_name = ''self'', alias_info = alias_a_write\<rparr>,
                   \<lparr>arg_name = ''other'', alias_info = None\<rparr>],
      returns = [\<lparr>arg_name = [], alias_info = alias_b_write\<rparr>]\<rparr>"

text \<open>A CPU kernel that throws.\<close>

definition throwing_services :: "int services" where
  "throwing_services = add_services\<lparr>redispatchBoxed := (\<lambda>stk h. Inl ''no CPU kernel'')\<rparr>"











text \<open>
  \<^verbatim>\<open>ones(int n) -> Tensor\<close>, an operator without tensor arguments: the kernel pops the integer
  and pushes a new CPU tensor. The states are the initial one and the one after step 3.
\<close>

definition ones_kernel :: "ivalue list \<Rightarrow> int heap \<Rightarrow> string + (ivalue list \<times> int heap)" where
  "ones_kernel stk h =
     (case rev stk of
        IInt n # rest \<Rightarrow> Inr (rev rest @ [ITensor (Defined (length h))], h @ [\<lparr>dev = CPU, dat = n\<rparr>])
      | _ \<Rightarrow> Inl ''bad arguments'')"

definition ones_services :: "int services" where
  "ones_services = add_services\<lparr>redispatchBoxed := ones_kernel\<rparr>"

definition ones_schema :: function_schema where
  "ones_schema =
     \<lparr>operator_name = ''aten::ones'',
      arguments = [\<lparr>arg_name = ''n'', alias_info = None\<rparr>],
      returns = [\<lparr>arg_name = [], alias_info = None\<rparr>]\<rparr>"

definition ones_state :: "int state" where
  "ones_state = \<lparr>stack = [IInt 3], heap = [], trace = []\<rparr>"

definition ones_state_step3 :: "int state" where
  "ones_state_step3 =
     \<lparr>stack = [ITensor (Defined 0)], heap = [\<lparr>dev = CPU, dat = 3\<rparr>],
      trace = [Call_to_cpu [], Call_redispatchBoxed]\<rparr>"

section \<open>Properties\<close>

subsection \<open>The two loops of to_cpu\<close>

lemma to_cpu_separate_spec:
  "to_cpu_separate ts is (ct, vt, tt) = (ct', vt', tt') \<Longrightarrow>
     vt' = vt @ filter defined (map ((!) ts) is) \<and>
     length ct' = length ct \<and> length tt' = length tt \<and>
     (\<forall>k<length tt. tt' ! k = (tt ! k \<or> (k \<in> set is \<and> defined (ts ! k)))) \<and>
     (\<forall>k<length ct. ct' ! k = (if k \<in> set is \<and> \<not> defined (ts ! k) then ts ! k else ct ! k))"
proof (induction "is" arbitrary: ct vt tt)
  case Nil
  then show ?case by simp
next
  case (Cons i "is")
  show ?case
  proof (cases "defined (ts ! i)")
    case True
    with Cons.prems have "to_cpu_separate ts is (ct, vt @ [ts ! i], tt[i := True]) = (ct', vt', tt')"
      by simp
    note IH = Cons.IH[OF this]
    have "\<forall>k<length tt. tt' ! k = (tt ! k \<or> (k \<in> set (i # is) \<and> defined (ts ! k)))"
    proof (intro allI impI)
      fix k assume "k < length tt"
      then show "tt' ! k = (tt ! k \<or> (k \<in> set (i # is) \<and> defined (ts ! k)))"
        using IH True by (cases "k = i") auto
    qed
    moreover have "\<forall>k<length ct. ct' ! k =
        (if k \<in> set (i # is) \<and> \<not> defined (ts ! k) then ts ! k else ct ! k)"
    proof (intro allI impI)
      fix k assume "k < length ct"
      then show "ct' ! k = (if k \<in> set (i # is) \<and> \<not> defined (ts ! k) then ts ! k else ct ! k)"
        using IH True by (cases "k = i") auto
    qed
    ultimately show ?thesis using IH True by simp
  next
    case False
    with Cons.prems have "to_cpu_separate ts is (ct[i := ts ! i], vt, tt) = (ct', vt', tt')"
      by simp
    note IH = Cons.IH[OF this]
    have "\<forall>k<length tt. tt' ! k = (tt ! k \<or> (k \<in> set (i # is) \<and> defined (ts ! k)))"
    proof (intro allI impI)
      fix k assume "k < length tt"
      then show "tt' ! k = (tt ! k \<or> (k \<in> set (i # is) \<and> defined (ts ! k)))"
        using IH False by (cases "k = i") auto
    qed
    moreover have "\<forall>k<length ct. ct' ! k =
        (if k \<in> set (i # is) \<and> \<not> defined (ts ! k) then ts ! k else ct ! k)"
    proof (intro allI impI)
      fix k assume "k < length ct"
      then show "ct' ! k = (if k \<in> set (i # is) \<and> \<not> defined (ts ! k) then ts ! k else ct ! k)"
        using IH False by (cases "k = i") auto
    qed
    ultimately show ?thesis using IH False by simp
  qed
qed

lemma to_cpu_fill_spec:
  assumes "length ts = n" "length tt = n" "length ct = n"
    and "\<forall>j<n. tt ! j = defined (ts ! j)"
    and "length (filter defined ts) \<le> length cv"
    and "m \<le> n"
  shows "\<exists>out. to_cpu_fill [m..<n] (length (filter defined (take m ts))) tt cv ct = Inr out \<and>
           length out = n \<and>
           (\<forall>k<n. out ! k = (if m \<le> k \<and> defined (ts ! k)
                              then cv ! length (filter defined (take k ts)) else ct ! k))"
  using assms
proof (induction "n - m" arbitrary: m ct)
  case 0
  then show ?case by simp
next
  case (Suc d)
  then have mn: "m < n" by simp
  then have upt: "[m..<n] = m # [Suc m..<n]" by (simp add: upt_conv_Cons)
  have tk: "take (Suc m) ts = take m ts @ [ts ! m]"
    using mn Suc.prems(1) by (simp add: take_Suc_conv_app_nth)
  show ?case
  proof (cases "defined (ts ! m)")
    case True
    have "filter defined ts = filter defined (take (Suc m) ts) @ filter defined (drop (Suc m) ts)"
      by (metis append_take_drop_id filter_append)
    then have "length (filter defined (take m ts)) < length (filter defined ts)"
      using True tk by simp
    then have lt: "length (filter defined (take m ts)) < length cv"
      using Suc.prems(5) by simp
    have d: "d = n - Suc m" using Suc.hyps(2) by simp
    have "\<exists>out. to_cpu_fill [Suc m..<n] (length (filter defined (take (Suc m) ts))) tt cv
              (ct[m := cv ! length (filter defined (take m ts))]) = Inr out \<and> length out = n \<and>
           (\<forall>k<n. out ! k = (if Suc m \<le> k \<and> defined (ts ! k)
                              then cv ! length (filter defined (take k ts))
                              else (ct[m := cv ! length (filter defined (take m ts))]) ! k))"
      using Suc.hyps(1)[OF d] Suc.prems mn by simp
    then obtain out where o: "to_cpu_fill [Suc m..<n] (length (filter defined (take (Suc m) ts))) tt cv
              (ct[m := cv ! length (filter defined (take m ts))]) = Inr out" "length out = n"
           "\<forall>k<n. out ! k = (if Suc m \<le> k \<and> defined (ts ! k)
                              then cv ! length (filter defined (take k ts))
                              else (ct[m := cv ! length (filter defined (take m ts))]) ! k)"
      by blast
    have tm: "tt ! m" using Suc.prems(4) mn True by simp
    have "to_cpu_fill [m..<n] (length (filter defined (take m ts))) tt cv ct = Inr out"
      using o(1) tm lt True tk by (simp add: upt)
    moreover have "\<forall>k<n. out ! k = (if m \<le> k \<and> defined (ts ! k)
                              then cv ! length (filter defined (take k ts)) else ct ! k)"
    proof (intro allI impI)
      fix k assume "k < n"
      then show "out ! k = (if m \<le> k \<and> defined (ts ! k)
                              then cv ! length (filter defined (take k ts)) else ct ! k)"
        using o(3) True Suc.prems(3) mn by (cases "k = m") auto
    qed
    ultimately show ?thesis using o(2) by blast
  next
    case False
    have d: "d = n - Suc m" using Suc.hyps(2) by simp
    have "\<exists>out. to_cpu_fill [Suc m..<n] (length (filter defined (take (Suc m) ts))) tt cv ct = Inr out \<and>
            length out = n \<and>
           (\<forall>k<n. out ! k = (if Suc m \<le> k \<and> defined (ts ! k)
                              then cv ! length (filter defined (take k ts)) else ct ! k))"
      using Suc.hyps(1)[OF d] Suc.prems mn by simp
    then obtain out where o: "to_cpu_fill [Suc m..<n] (length (filter defined (take (Suc m) ts))) tt cv ct = Inr out"
           "length out = n"
           "\<forall>k<n. out ! k = (if Suc m \<le> k \<and> defined (ts ! k)
                              then cv ! length (filter defined (take k ts)) else ct ! k)"
      by blast
    have tm: "\<not> tt ! m" using Suc.prems(4) mn False by simp
    have "to_cpu_fill [m..<n] (length (filter defined (take m ts))) tt cv ct = Inr out"
      using o(1) tm False tk by (simp add: upt)
    moreover have "\<forall>k<n. out ! k = (if m \<le> k \<and> defined (ts ! k)
                              then cv ! length (filter defined (take k ts)) else ct ! k)"
    proof (intro allI impI)
      fix k assume "k < n"
      then show "out ! k = (if m \<le> k \<and> defined (ts ! k)
                              then cv ! length (filter defined (take k ts)) else ct ! k)"
        using o(3) False by (cases "k = m") auto
    qed
    ultimately show ?thesis using o(2) by blast
  qed
qed

lemma to_cpu_separate_all:
  assumes "to_cpu_separate ts [0..<length ts]
             (replicate (length ts) Undefined, [], replicate (length ts) False) = (ct, vt, tt)"
  shows "vt = filter defined ts" "length ct = length ts" "length tt = length ts"
    "\<forall>k<length ts. tt ! k = defined (ts ! k)"
    "\<forall>k<length ts. \<not> defined (ts ! k) \<longrightarrow> ct ! k = ts ! k"
  using to_cpu_separate_spec[OF assms] by (auto simp: map_nth)

lemma to_cpu_run:
  assumes "at_to_cpu P (filter defined tensors) (heap s) = Inr (cpu_valid, h)"
    and "length (filter defined tensors) \<le> length cpu_valid"
  shows "\<exists>out. to_cpu P tensors s =
           (Inr out, s\<lparr>trace := trace s @ [Call_to_cpu (filter defined tensors)], heap := h\<rparr>) \<and>
         length out = length tensors \<and>
         (\<forall>k<length tensors. out ! k =
            (if defined (tensors ! k) then cpu_valid ! length (filter defined (take k tensors))
             else tensors ! k))"
proof -
  obtain ct vt tt where sep: "to_cpu_separate tensors [0..<length tensors]
             (replicate (length tensors) Undefined, [], replicate (length tensors) False) = (ct, vt, tt)"
    by (metis prod_cases3)
  note S = to_cpu_separate_all[OF sep]
  obtain out where o: "to_cpu_fill [0..<length tensors] 0 tt cpu_valid ct = Inr out"
    "length out = length tensors"
    "\<forall>k<length tensors. out ! k = (if defined (tensors ! k)
        then cpu_valid ! length (filter defined (take k tensors)) else ct ! k)"
    using to_cpu_fill_spec[of tensors "length tensors" tt ct cpu_valid 0] S assms(2) by auto
  have "to_cpu P tensors s =
           (Inr out, s\<lparr>trace := trace s @ [Call_to_cpu (filter defined tensors)], heap := h\<rparr>)"
    using sep S(1) assms(1) o(1) by (simp add: to_cpu_def)
  moreover have "\<forall>k<length tensors. out ! k =
            (if defined (tensors ! k) then cpu_valid ! length (filter defined (take k tensors))
             else tensors ! k)"
    using o(3) S(5) by auto
  ultimately show ?thesis using o(2) by blast
qed

lemma to_cpu_trace:
  "trace (snd (to_cpu P tensors s)) = trace s @ [Call_to_cpu (filter defined tensors)]"
proof -
  obtain ct vt tt where sep: "to_cpu_separate tensors [0..<length tensors]
             (replicate (length tensors) Undefined, [], replicate (length tensors) False) = (ct, vt, tt)"
    by (metis prod_cases3)
  note S = to_cpu_separate_all[OF sep]
  show ?thesis using sep S(1)
    by (simp add: to_cpu_def Let_def split: sum.splits prod.splits)
qed

lemma rank_lt:
  assumes "k < length ts" "defined (ts ! k)"
  shows "length (filter defined (take k ts)) < length (filter defined ts)"
proof -
  have "ts = take k ts @ ts ! k # drop (Suc k) ts"
    using assms(1) by (simp add: id_take_nth_drop)
  then have "filter defined ts = filter defined (take k ts) @ filter defined (ts ! k # drop (Suc k) ts)"
    by (metis filter_append)
  then show ?thesis using assms(2) by simp
qed

lemma to_cpu_fill_frame:
  "to_cpu_fill is dp tt cv ct = Inr out \<Longrightarrow>
     length out = length ct \<and> (\<forall>k<length ct. \<not> tt ! k \<longrightarrow> out ! k = ct ! k)"
proof (induction "is" arbitrary: dp ct)
  case Nil
  then show ?case by simp
next
  case (Cons i "is")
  show ?case
  proof (cases "tt ! i")
    case True
    with Cons.prems have lt: "dp < length cv"
      and r: "to_cpu_fill is (Suc dp) tt cv (ct[i := cv ! dp]) = Inr out"
      by (auto split: if_splits)
    note IH = Cons.IH[OF r]
    have "\<forall>k<length ct. \<not> tt ! k \<longrightarrow> out ! k = ct ! k"
    proof (intro allI impI)
      fix k assume "k < length ct" "\<not> tt ! k"
      then show "out ! k = ct ! k" using IH True by (cases "k = i") auto
    qed
    then show ?thesis using IH by simp
  next
    case False
    with Cons.prems have "to_cpu_fill is dp tt cv ct = Inr out" by simp
    from Cons.IH[OF this] show ?thesis .
  qed
qed

lemma to_cpu_success:
  assumes "to_cpu P tensors s = (Inr out, s')"
  shows "\<exists>cv h. at_to_cpu P (filter defined tensors) (heap s) = Inr (cv, h) \<and>
           s' = s\<lparr>trace := trace s @ [Call_to_cpu (filter defined tensors)], heap := h\<rparr>"
    and "length out = length tensors"
    and "\<forall>k<length tensors. \<not> defined (tensors ! k) \<longrightarrow> out ! k = tensors ! k"
proof -
  obtain ct vt tt where sep: "to_cpu_separate tensors [0..<length tensors]
             (replicate (length tensors) Undefined, [], replicate (length tensors) False) = (ct, vt, tt)"
    by (metis prod_cases3)
  note S = to_cpu_separate_all[OF sep]
  from assms sep S(1) obtain cv h where
    c: "at_to_cpu P (filter defined tensors) (heap s) = Inr (cv, h)"
    and f: "to_cpu_fill [0..<length tensors] 0 tt cv ct = Inr out"
    and s': "s' = s\<lparr>trace := trace s @ [Call_to_cpu (filter defined tensors)], heap := h\<rparr>"
    by (auto simp: to_cpu_def Let_def split: sum.splits prod.splits)
  show "\<exists>cv h. at_to_cpu P (filter defined tensors) (heap s) = Inr (cv, h) \<and>
           s' = s\<lparr>trace := trace s @ [Call_to_cpu (filter defined tensors)], heap := h\<rparr>"
    using c s' by blast
  from to_cpu_fill_frame[OF f] S show "length out = length tensors" by simp
  from to_cpu_fill_frame[OF f] S
  show "\<forall>k<length tensors. \<not> defined (tensors ! k) \<longrightarrow> out ! k = tensors ! k" by auto
qed

subsection \<open>to_cpu: positions, undefined entries and the transfer call\<close>

text \<open>
  Claim C4. When the transfer primitive answers the list of the defined entries with a list
  of the same length, \<open>to_cpu\<close> returns a list as long as its input, in the same order:
  the defined entry at position \<open>k\<close> is replaced by the transferred tensor whose index is
  the number of defined entries before \<open>k\<close>, and an undefined entry is returned as it is.
  The primitive is called once, with exactly the defined entries, so the number of tensors
  it receives is the number of defined entries; when all it returns is on the CPU, so is
  every replaced entry.
\<close>

theorem to_cpu_keeps_positions:
  assumes "at_to_cpu P (filter defined tensors) (heap s) = Inr (cpu_valid_tensors, h)"
    and "length cpu_valid_tensors = length (filter defined tensors)"
  shows "\<exists>cpu_tensors.
           to_cpu P tensors s =
             (Inr cpu_tensors,
              s\<lparr>trace := trace s @ [Call_to_cpu (filter defined tensors)], heap := h\<rparr>) \<and>
           length cpu_tensors = length tensors \<and>
           (\<forall>k<length tensors. cpu_tensors ! k =
              (if defined (tensors ! k)
               then cpu_valid_tensors ! length (filter defined (take k tensors))
               else tensors ! k)) \<and>
           ((\<forall>c\<in>set cpu_valid_tensors. tensor_device h c = Inr CPU) \<longrightarrow>
            (\<forall>k<length tensors. defined (tensors ! k) \<longrightarrow>
               tensor_device h (cpu_tensors ! k) = Inr CPU)) \<and>
           length (filter defined tensors) =
             card {k. k < length tensors \<and> defined (tensors ! k)}"
proof -
  obtain out where o: "to_cpu P tensors s =
           (Inr out, s\<lparr>trace := trace s @ [Call_to_cpu (filter defined tensors)], heap := h\<rparr>)"
    "length out = length tensors"
    "\<forall>k<length tensors. out ! k =
            (if defined (tensors ! k) then cpu_valid_tensors ! length (filter defined (take k tensors))
             else tensors ! k)"
    using to_cpu_run[OF assms(1)] assms(2) by auto
  have "\<forall>k<length tensors. defined (tensors ! k) \<longrightarrow> tensor_device h (out ! k) = Inr CPU"
    if cpu: "\<forall>c\<in>set cpu_valid_tensors. tensor_device h c = Inr CPU"
  proof (intro allI impI)
    fix k assume k: "k < length tensors" "defined (tensors ! k)"
    then have "length (filter defined (take k tensors)) < length cpu_valid_tensors"
      using rank_lt assms(2) by simp
    then have "cpu_valid_tensors ! length (filter defined (take k tensors)) \<in> set cpu_valid_tensors"
      by simp
    then show "tensor_device h (out ! k) = Inr CPU" using cpu o(3) k by simp
  qed
  moreover have "length (filter defined tensors) =
      card {k. k < length tensors \<and> defined (tensors ! k)}"
    by (simp add: length_filter_conv_card)
  ultimately show ?thesis using o by blast
qed


text \<open>The list \<open>[t0, undefined, t1]\<close> on the example store.\<close>

theorem to_cpu_keeps_positions_witness:
  "at_to_cpu add_services (filter defined [Defined 0, Undefined, Defined 1]) (heap add_state) =
     Inr ([Defined 2, Defined 3], heap add_state @ [\<lparr>dev = CPU, dat = 10\<rparr>, \<lparr>dev = CPU, dat = 32\<rparr>]) \<and>
   (\<exists>cpu_tensors.
      fst (to_cpu add_services [Defined 0, Undefined, Defined 1] add_state) = Inr cpu_tensors \<and>
      length cpu_tensors = 3 \<and> cpu_tensors ! 0 = Defined 2 \<and> cpu_tensors ! 1 = Undefined \<and>
      cpu_tensors ! 2 = Defined 3)"
proof -
  have call: "at_to_cpu add_services (filter defined [Defined 0, Undefined, Defined 1])
      (heap add_state) =
     Inr ([Defined 2, Defined 3], heap add_state @ [\<lparr>dev = CPU, dat = 10\<rparr>, \<lparr>dev = CPU, dat = 32\<rparr>])"
    by (simp add: add_services_def add_state_def)
  have len: "length [Defined 2, Defined 3] = length (filter defined [Defined 0, Undefined, Defined 1])"
    by simp
  from to_cpu_keeps_positions[OF call len]
  obtain cpu_tensors where
    r: "fst (to_cpu add_services [Defined 0, Undefined, Defined 1] add_state) = Inr cpu_tensors"
    and l: "length cpu_tensors = length [Defined 0, Undefined, Defined 1]"
    and n: "\<forall>k<length [Defined 0, Undefined, Defined 1]. cpu_tensors ! k =
              (if defined ([Defined 0, Undefined, Defined 1] ! k)
               then [Defined 2, Defined 3] !
                      length (filter defined (take k [Defined 0, Undefined, Defined 1]))
               else [Defined 0, Undefined, Defined 1] ! k)"
    by force
  from n have "cpu_tensors ! 0 = Defined 2" by force
  moreover from n have "cpu_tensors ! 1 = Undefined" by force
  moreover from n have "cpu_tensors ! 2 = Defined 3"
    by (force simp: numeral_2_eq_2)
  ultimately show ?thesis using call r l by auto
qed

text \<open>
  Claim C5, as stated, fails: line 33 calls the transfer primitive unconditionally. On the
  empty list the primitive is called, with the empty list.
\<close>

theorem to_cpu_empty_calls_transfer:
  "trace (snd (to_cpu add_services [] add_state)) = trace add_state @ [Call_to_cpu []] \<and>
   trace (snd (to_cpu add_services [] add_state)) \<noteq> trace add_state"
  by (simp add: to_cpu_def add_services_def)

text \<open>
  Claim C5, amended. On a list with no defined entry \<open>to_cpu\<close> calls the transfer
  primitive exactly once, with the empty list: no tensor is handed to it. The failure of
  that call is the failure of \<open>to_cpu\<close>; otherwise the input list is returned unchanged.
\<close>

theorem to_cpu_no_defined_entry:
  assumes "\<forall>t\<in>set tensors. \<not> defined t"
  shows "trace (snd (to_cpu P tensors s)) = trace s @ [Call_to_cpu []] \<and>
         (case at_to_cpu P [] (heap s) of
            Inl m \<Rightarrow> fst (to_cpu P tensors s) = Inl (Failure m)
          | Inr (cpu_valid_tensors, h) \<Rightarrow> fst (to_cpu P tensors s) = Inr tensors)"
proof -
  have f: "filter defined tensors = []" using assms by (simp add: filter_empty_conv)
  have t: "trace (snd (to_cpu P tensors s)) = trace s @ [Call_to_cpu []]"
    using to_cpu_trace[of P tensors s] f by simp
  show ?thesis
  proof (cases "at_to_cpu P [] (heap s)")
    case (Inl m)
    obtain ct vt tt where sep: "to_cpu_separate tensors [0..<length tensors]
             (replicate (length tensors) Undefined, [], replicate (length tensors) False) = (ct, vt, tt)"
      by (metis prod_cases3)
    have "fst (to_cpu P tensors s) = Inl (Failure m)"
      using sep to_cpu_separate_all(1)[OF sep] f Inl by (simp add: to_cpu_def Let_def)
    then show ?thesis using t Inl by simp
  next
    case (Inr r)
    obtain cv h where r: "r = (cv, h)" by (cases r)
    have "at_to_cpu P (filter defined tensors) (heap s) = Inr (cv, h)" using Inr r f by simp
    from to_cpu_run[OF this] f obtain out where
      o: "to_cpu P tensors s =
           (Inr out, s\<lparr>trace := trace s @ [Call_to_cpu (filter defined tensors)], heap := h\<rparr>)"
      "length out = length tensors"
      "\<forall>k<length tensors. out ! k =
            (if defined (tensors ! k) then cv ! length (filter defined (take k tensors))
             else tensors ! k)" by auto
    have "out = tensors"
      using o(2,3) assms by (auto simp: list_eq_iff_nth_eq)
    then show ?thesis using t Inr r o(1) by simp
  qed
qed

theorem to_cpu_no_defined_entry_witness:
  "trace (snd (to_cpu add_services [Undefined, Undefined] add_state)) =
     trace add_state @ [Call_to_cpu []] \<and>
   fst (to_cpu add_services [Undefined, Undefined] add_state) = Inr [Undefined, Undefined]"
proof -
  have h: "\<forall>t\<in>set [Undefined, Undefined]. \<not> defined t" by simp
  have "at_to_cpu add_services [] (heap add_state) = Inr ([], heap add_state)"
    by (simp add: add_services_def)
  with to_cpu_no_defined_entry[OF h, of add_services add_state] show ?thesis by simp
qed

subsection \<open>Steps 1 to 3: what is recorded\<close>

lemma to_cpu_stack: "to_cpu P ts s = (r, s') \<Longrightarrow> stack s' = stack s"
  by (auto simp: to_cpu_def Let_def split: prod.splits sum.splits)

lemma list_update_keeps_tensors:
  assumes "stk ! k = ITensorList ts"
  shows "isTensor (stk[k := ITensorList c] ! j) = isTensor (stk ! j)"
    and "isTensor (stk ! j) \<Longrightarrow> stk[k := ITensorList c] ! j = stk ! j"
proof -
  show "isTensor (stk[k := ITensorList c] ! j) = isTensor (stk ! j)"
  proof (cases "k < length stk")
    case True
    then show ?thesis using assms by (cases "j = k") (auto simp: isTensor_def)
  next
    case False
    then have "length stk \<le> k" by simp
    then have "stk[k := ITensorList c] = stk" by (rule list_update_beyond)
    then show ?thesis by simp
  qed
  show "stk[k := ITensorList c] ! j = stk ! j" if "isTensor (stk ! j)"
  proof (cases "k < length stk")
    case True
    then show ?thesis using assms that by (cases "j = k") (auto simp: isTensor_def)
  next
    case False
    then have "length stk \<le> k" by simp
    then have "stk[k := ITensorList c] = stk" by (rule list_update_beyond)
    then show ?thesis by simp
  qed
qed

lemma step1_gather_spec:
  "step1_gather P ab is (ta, ti) s = (Inr (ta', ti'), s') \<Longrightarrow> length ta = length ti \<Longrightarrow>
     ti' = ti @ filter (\<lambda>idx. isTensor (stack s ! (ab + idx))) is \<and>
     length ta' = length ti' \<and>
     (\<forall>i<length ta. ta' ! i = ta ! i) \<and>
     (\<forall>i. length ta \<le> i \<and> i < length ta' \<longrightarrow> stack s ! (ab + ti' ! i) = ITensor (ta' ! i)) \<and>
     length (stack s') = length (stack s)"
proof (induction "is" arbitrary: ta ti s)
  case Nil
  then show ?case by auto
next
  case (Cons idx "is")
  show ?case
  proof (cases "stack s ! (ab + idx)")
    case (ITensor t)
    with Cons.prems have r: "step1_gather P ab is (ta @ [t], ti @ [idx]) s = (Inr (ta', ti'), s')"
      by simp
    have l: "length (ta @ [t]) = length (ti @ [idx])" using Cons.prems(2) by simp
    note IH = Cons.IH[OF r l]
    have a: "ti' = ti @ filter (\<lambda>idx. isTensor (stack s ! (ab + idx))) (idx # is)"
      using IH ITensor by (simp add: isTensor_def)
    have b: "\<forall>i<length ta. ta' ! i = ta ! i"
      using IH by (auto simp: nth_append)
    have c: "\<forall>i. length ta \<le> i \<and> i < length ta' \<longrightarrow> stack s ! (ab + ti' ! i) = ITensor (ta' ! i)"
    proof (intro allI impI)
      fix i assume i: "length ta \<le> i \<and> i < length ta'"
      show "stack s ! (ab + ti' ! i) = ITensor (ta' ! i)"
      proof (cases "i = length ta")
        case True
        have "ta' ! i = t" using IH True by (auto simp: nth_append)
        moreover have "ti' ! i = idx" using a True Cons.prems(2) ITensor
          by (simp add: isTensor_def nth_append)
        ultimately show ?thesis using ITensor by simp
      next
        case False
        then show ?thesis using IH i by auto
      qed
    qed
    show ?thesis using a b c IH by simp
  next
    case (ITensorList ts)
    obtain r1 s1 where t: "to_cpu P ts s = (r1, s1)" by (cases "to_cpu P ts s")
    have st: "stack s1 = stack s" using to_cpu_stack[OF t] .
    from Cons.prems(1) ITensorList t obtain c where c: "r1 = Inr c"
      and r0: "step1_gather P ab is (ta, ti)
                (s1\<lparr>stack := (stack s1)[ab + idx := ITensorList c]\<rparr>) = (Inr (ta', ti'), s')"
      by (cases r1) auto
    define s2 where "s2 = s1\<lparr>stack := (stack s1)[ab + idx := ITensorList c]\<rparr>"
    have st2: "stack s2 = (stack s)[ab + idx := ITensorList c]" by (simp add: s2_def st)
    have r: "step1_gather P ab is (ta, ti) s2 = (Inr (ta', ti'), s')" using r0 by (simp add: s2_def)
    note IH = Cons.IH[OF r Cons.prems(2)]
    have K1: "isTensor (stack s2 ! j) = isTensor (stack s ! j)" for j
      unfolding st2 using list_update_keeps_tensors(1)[OF ITensorList] .
    have K2: "stack s2 ! j = stack s ! j" if "isTensor (stack s ! j)" for j
      unfolding st2 using list_update_keeps_tensors(2)[OF ITensorList that] .
    have a: "ti' = ti @ filter (\<lambda>idx. isTensor (stack s ! (ab + idx))) (idx # is)"
    proof -
      have "\<not> isTensor (stack s ! (ab + idx))" using ITensorList by (simp add: isTensor_def)
      then show ?thesis using IH by (simp add: K1)
    qed
    have c: "\<forall>i. length ta \<le> i \<and> i < length ta' \<longrightarrow> stack s ! (ab + ti' ! i) = ITensor (ta' ! i)"
    proof (intro allI impI)
      fix i assume i: "length ta \<le> i \<and> i < length ta'"
      with IH have e: "stack s2 ! (ab + ti' ! i) = ITensor (ta' ! i)" by blast
      then have "isTensor (stack s2 ! (ab + ti' ! i))" by (simp add: isTensor_def)
      then have "isTensor (stack s ! (ab + ti' ! i))" using K1 by simp
      from K2[OF this] e show "stack s ! (ab + ti' ! i) = ITensor (ta' ! i)" by simp
    qed
    have "length (stack s') = length (stack s)" using IH st2 by simp
    then show ?thesis using a c IH by blast
  next
    case INone
    with Cons.prems have r: "step1_gather P ab is (ta, ti) s = (Inr (ta', ti'), s')" by simp
    have f: "filter (\<lambda>idx. isTensor (stack s ! (ab + idx))) (idx # is) =
        filter (\<lambda>idx. isTensor (stack s ! (ab + idx))) is"
      using INone by (simp add: isTensor_def)
    show ?thesis unfolding f using Cons.IH[OF r Cons.prems(2)] .
  next
    case (IInt x)
    with Cons.prems have r: "step1_gather P ab is (ta, ti) s = (Inr (ta', ti'), s')" by simp
    have f: "filter (\<lambda>idx. isTensor (stack s ! (ab + idx))) (idx # is) =
        filter (\<lambda>idx. isTensor (stack s ! (ab + idx))) is"
      using IInt by (simp add: isTensor_def)
    show ?thesis unfolding f using Cons.IH[OF r Cons.prems(2)] .
  next
    case (IBool x)
    with Cons.prems have r: "step1_gather P ab is (ta, ti) s = (Inr (ta', ti'), s')" by simp
    have f: "filter (\<lambda>idx. isTensor (stack s ! (ab + idx))) (idx # is) =
        filter (\<lambda>idx. isTensor (stack s ! (ab + idx))) is"
      using IBool by (simp add: isTensor_def)
    show ?thesis unfolding f using Cons.IH[OF r Cons.prems(2)] .
  qed
qed

lemma steps_1_to_3_success:
  assumes "steps_1_to_3 P schema s0 = (Inr (ta, ti, cpu), s5)"
  shows "length (arguments schema) \<le> length (stack s0)"
    and "ti = filter (\<lambda>idx. isTensor (stack s0 ! (length (stack s0) - length (arguments schema) + idx)))
               [0..<length (arguments schema)]"
    and "length ti = length ta" and "length cpu = length ta"
    and "\<forall>i<length ta. stack s0 ! (length (stack s0) - length (arguments schema) + ti ! i) = ITensor (ta ! i)"
    and "\<forall>i<length ta. \<not> defined (ta ! i) \<longrightarrow> cpu ! i = ta ! i"
proof -
  let ?n = "length (arguments schema)"
  let ?ab = "length (stack s0) - ?n"
  from assms show n: "?n \<le> length (stack s0)"
    by (auto simp: steps_1_to_3_def steps_1_to_2_def Let_def split: if_splits)
  from assms n obtain s1 s2 where
    g: "step1_gather P ?ab [0..<?n] ([], []) s0 = (Inr (ta, ti), s1)"
    and c: "to_cpu P ta s1 = (Inr cpu, s2)"
    by (auto simp: steps_1_to_3_def steps_1_to_2_def Let_def split: if_splits prod.splits sum.splits option.splits)
  from step1_gather_spec[OF g]
  show "ti = filter (\<lambda>idx. isTensor (stack s0 ! (?ab + idx))) [0..<?n]"
    and "length ti = length ta"
    and "\<forall>i<length ta. stack s0 ! (?ab + ti ! i) = ITensor (ta ! i)"
    by auto
  from to_cpu_success[OF c] show "length cpu = length ta"
    and "\<forall>i<length ta. \<not> defined (ta ! i) \<longrightarrow> cpu ! i = ta ! i" by auto
qed

subsection \<open>The store across the steps\<close>














subsection \<open>The return loop\<close>

lemma copy_case_stack:
  assumes "copy_case P ta rb idx rt s = (r, s')"
  shows "length (stack s') = length (stack s) \<and> (\<forall>j. j \<noteq> rb + idx \<longrightarrow> stack s' ! j = stack s ! j)"
  using assms by (auto simp: copy_case_def Let_def split: sum.splits prod.splits)

lemma resolve_return_stack:
  assumes "resolve_return P schema ta ti cpu rb idx s = (r, s')"
  shows "length (stack s') = length (stack s) \<and> (\<forall>j. j \<noteq> rb + idx \<longrightarrow> stack s' ! j = stack s ! j)"
proof -
  have c: "copy_case P ta rb idx rt s1 = (r, s') \<Longrightarrow> stack s1 = stack s \<Longrightarrow>
      length (stack s') = length (stack s) \<and> (\<forall>j. j \<noteq> rb + idx \<longrightarrow> stack s' ! j = stack s ! j)"
    for rt s1 using copy_case_stack[of P ta rb idx rt s1 r s'] by simp
  show ?thesis using assms c
    by (auto simp: resolve_return_def Let_def
        split: ivalue.splits if_splits option.splits sum.splits)
qed

lemma step4_stack:
  "step4_returns P schema ta ti cpu rb is s = (r, s') \<Longrightarrow>
     length (stack s') = length (stack s) \<and>
     (\<forall>j. (\<forall>idx\<in>set is. j \<noteq> rb + idx) \<longrightarrow> stack s' ! j = stack s ! j)"
proof (induction "is" arbitrary: s)
  case Nil
  then show ?case by auto
next
  case (Cons idx "is")
  obtain r1 s1 where rr: "resolve_return P schema ta ti cpu rb idx s = (r1, s1)"
    by (cases "resolve_return P schema ta ti cpu rb idx s")
  note F = resolve_return_stack[OF rr]
  show ?case
  proof (cases r1)
    case None
    then have "step4_returns P schema ta ti cpu rb is s1 = (r, s')" using Cons.prems rr by simp
    from Cons.IH[OF this] F show ?thesis by auto
  next
    case (Some e)
    then show ?thesis using Cons.prems rr F by auto
  qed
qed

lemma step4_append:
  "step4_returns P schema ta ti cpu rb (xs @ ys) s =
     (case step4_returns P schema ta ti cpu rb xs s of
        (Some e, s1) \<Rightarrow> (Some e, s1)
      | (None, s1) \<Rightarrow> step4_returns P schema ta ti cpu rb ys s1)"
  by (induction xs arbitrary: s) (auto split: prod.splits option.splits)

lemma upt_split: "idx < n \<Longrightarrow> [0..<n] = [0..<idx] @ idx # [Suc idx..<n]"
  by (metis less_imp_le_nat upt_add_eq_append upt_conv_Cons le_add_diff_inverse zero_le add_0)



lemma find_alias_None:
  "find_alias A a ti cpu is = None \<longleftrightarrow>
     (\<forall>j\<in>set is. \<not> (defined (cpu ! j) \<and> a = alias_info (A ! (ti ! j))))"
  by (induction "is") (auto simp: Let_def)

lemma resolve_return_write:
  assumes "stack s ! (rb + idx) = ITensor rt" and "defined rt"
    and "is_write_alias (alias_info (returns schema ! idx))"
  shows "resolve_return P schema ta ti cpu rb idx s =
     (case find_alias (arguments schema) (alias_info (returns schema ! idx)) ti cpu [0..<length ti] of
        Some i \<Rightarrow> (None, s\<lparr>stack := (stack s)[rb + idx := ITensor (ta ! i)]\<rparr>)
      | None \<Rightarrow> (Some (SchemaInconsistency (operator_name schema) (returns schema ! idx)), s))"
  using assms by (simp add: resolve_return_def Let_def)


subsection \<open>The example runs\<close>

lemmas example_defs =
  add_services_def add_schema_def add_state_def alias_a_write_def alias_b_write_def
  bad_schema_def add_state_step3_def add_state_final_def add_kernel_def host_copy_def host_to_def

lemmas model_defs =
  cpu_fallback_def steps_1_to_3_def steps_1_to_2_def to_cpu_def step2_redispatch_def resolve_return_def
  copy_case_def first_arg_device_def tensor_device_def is_write_alias_def is_read_alias_def
  Let_def upt_rec

lemma add_steps:
  "steps_1_to_3 add_services add_schema add_state =
     (Inr ([Defined 0, Defined 1], [0, 1], [Defined 2, Defined 3]), add_state_step3)"
  by (simp add: model_defs example_defs)


lemma bad_steps:
  "steps_1_to_3 add_services bad_schema add_state =
     (Inr ([Defined 0, Defined 1], [0, 1], [Defined 2, Defined 3]), add_state_step3)"
  by (simp add: model_defs example_defs)



subsection \<open>Mutable aliases among the returns\<close>






text \<open>
  Claim C3. When steps 1 to 3 succeed and a return is a defined tensor with a mutable alias
  that no recorded tensor argument carries, the call fails. Unless resolving an earlier
  return fails first, the error is the schema inconsistency with the name of the operator
  and the schema entry of that return, and nothing is written to its slot.
\<close>

theorem mismatched_mutable_alias_fails:
  assumes "steps_1_to_3 P schema s0 = (Inr (tensor_args, tensor_args_indices, cpu_tensors), s5)"
    and "length (returns schema) \<le> length (stack s5)"
    and "idx < length (returns schema)"
    and "stack s5 ! (length (stack s5) - length (returns schema) + idx) = ITensor return_tens"
    and "defined return_tens"
    and "is_write_alias (alias_info (returns schema ! idx))"
    and "\<forall>i<length tensor_args_indices.
           alias_info (arguments schema ! (tensor_args_indices ! i)) \<noteq>
           alias_info (returns schema ! idx)"
  shows "fst (cpu_fallback P schema s0) \<noteq> None \<and>
         (\<forall>s. step4_returns P schema tensor_args tensor_args_indices cpu_tensors
                (length (stack s5) - length (returns schema)) [0..<idx] s5 = (None, s) \<longrightarrow>
              cpu_fallback P schema s0 =
                (Some (SchemaInconsistency (operator_name schema) (returns schema ! idx)), s))"
proof -
  let ?n = "length (returns schema)"
  let ?rb = "length (stack s5) - ?n"
  let ?step4 = "step4_returns P schema tensor_args tensor_args_indices cpu_tensors ?rb"
  let ?err = "SchemaInconsistency (operator_name schema) (returns schema ! idx)"
  have call: "cpu_fallback P schema s0 = ?step4 ([0..<idx] @ idx # [Suc idx..<?n]) s5"
    using assms(1,2) upt_split[OF assms(3)] by (simp add: cpu_fallback_def Let_def)
  have nomatch: "find_alias (arguments schema) (alias_info (returns schema ! idx))
      tensor_args_indices cpu_tensors [0..<length tensor_args_indices] = None"
    using assms(7) by (auto simp: find_alias_None)
  have at: "cpu_fallback P schema s0 = (Some ?err, s)" if pre: "?step4 [0..<idx] s5 = (None, s)" for s
  proof -
    have "stack s ! (?rb + idx) = stack s5 ! (?rb + idx)" using step4_stack[OF pre] by auto
    then have slot: "stack s ! (?rb + idx) = ITensor return_tens" using assms(4) by simp
    have "resolve_return P schema tensor_args tensor_args_indices cpu_tensors ?rb idx s =
        (Some ?err, s)"
      using resolve_return_write[OF slot assms(5,6)] nomatch by simp
    then show ?thesis using call pre by (simp add: step4_append)
  qed
  obtain r1 s1 where pre: "?step4 [0..<idx] s5 = (r1, s1)" by (cases "?step4 [0..<idx] s5")
  have "fst (cpu_fallback P schema s0) \<noteq> None"
  proof (cases r1)
    case None
    then show ?thesis using at pre by simp
  next
    case (Some e)
    then show ?thesis using call pre by (simp add: step4_append)
  qed
  then show ?thesis using at by blast
qed

text \<open>The schema with the return \<open>b!\<close> and the arguments \<open>a!\<close> and unaliased.\<close>

theorem mismatched_mutable_alias_fails_witness:
  "cpu_fallback add_services bad_schema add_state =
     (Some (SchemaInconsistency ''aten::bad_'' \<lparr>arg_name = [], alias_info = alias_b_write\<rparr>),
      add_state_step3)"
proof -
  have len: "length (returns bad_schema) \<le> length (stack add_state_step3)"
    by (simp add: example_defs)
  have idx: "0 < length (returns bad_schema)" by (simp add: example_defs)
  have slot: "stack add_state_step3 !
      (length (stack add_state_step3) - length (returns bad_schema) + 0) = ITensor (Defined 2)"
    by (simp add: example_defs)
  have wr: "is_write_alias (alias_info (returns bad_schema ! 0))"
    by (simp add: example_defs is_write_alias_def)
  have nomatch: "\<forall>i<length [0, 1::nat].
           alias_info (arguments bad_schema ! ([0, 1] ! i)) \<noteq> alias_info (returns bad_schema ! 0)"
    by (auto simp: example_defs less_Suc_eq numeral_2_eq_2)
  have pre: "step4_returns add_services bad_schema [Defined 0, Defined 1] [0, 1]
      [Defined 2, Defined 3] (length (stack add_state_step3) - length (returns bad_schema))
      [0..<0] add_state_step3 = (None, add_state_step3)" by simp
  from mismatched_mutable_alias_fails[OF bad_steps len idx slot _ wr nomatch] pre
  show ?thesis by (simp add: example_defs)
qed

subsection \<open>Where an error comes from\<close>

lemma to_cpu_error:
  assumes "to_cpu P ts s = (Inl e, s')"
  shows "e = OutOfRange ''cpu_valid_tensors'' \<or> thrown_by_last_call P e s'"
proof -
  obtain ct vt tt where sep: "to_cpu_separate ts [0..<length ts]
      (replicate (length ts) Undefined, [], replicate (length ts) False) = (ct, vt, tt)"
    by (metis prod_cases3)
  note V = to_cpu_separate_all(1)[OF sep]
  show ?thesis
  proof (cases "at_to_cpu P (filter defined ts) (heap s)")
    case (Inl m)
    then have "e = Failure m" "trace s' = trace s @ [Call_to_cpu (filter defined ts)]"
      using assms sep V by (auto simp: to_cpu_def Let_def)
    then show ?thesis using Inl by (auto simp: thrown_by_last_call_def service_threw_def)
  next
    case (Inr p)
    obtain cv h where p: "p = (cv, h)" by (cases p)
    have fill: "to_cpu_fill [0..<length ts] 0 tt cv ct = Inl e"
      using assms sep V Inr p by (auto simp: to_cpu_def Let_def split: sum.splits)
    have "to_cpu_fill is dp tt cv c = Inl e \<Longrightarrow> e = OutOfRange ''cpu_valid_tensors''"
      for "is" dp c
      by (induction "is" arbitrary: dp c) (auto split: if_splits)
    from this[OF fill] show ?thesis by simp
  qed
qed

lemma step1_gather_error:
  "step1_gather P ab is acc s = (Inl e, s') \<Longrightarrow>
     e = OutOfRange ''cpu_valid_tensors'' \<or> thrown_by_last_call P e s'"
proof (induction "is" arbitrary: acc s)
  case Nil
  then show ?case by simp
next
  case (Cons idx "is")
  obtain ta ti where acc: "acc = (ta, ti)" by (cases acc)
  show ?case
  proof (cases "stack s ! (ab + idx)")
    case (ITensorList ts)
    obtain r1 s1 where t: "to_cpu P ts s = (r1, s1)" by (cases "to_cpu P ts s")
    show ?thesis
    proof (cases r1)
      case (Inl e1)
      then have "e1 = e" "s1 = s'" using Cons.prems acc ITensorList t by auto
      then show ?thesis using to_cpu_error t Inl by blast
    next
      case (Inr c)
      then have "step1_gather P ab is (ta, ti)
          (s1\<lparr>stack := (stack s1)[ab + idx := ITensorList c]\<rparr>) = (Inl e, s')"
        using Cons.prems acc ITensorList t by simp
      from Cons.IH[OF this] show ?thesis .
    qed
  qed (use Cons acc in auto)
qed

lemma step2_redispatch_error:
  assumes "step2_redispatch P s = (Some e, s')"
  shows "thrown_by_last_call P e s'"
proof (cases "redispatchBoxed P (stack s) (heap s)")
  case (Inl m)
  then have "e = Failure m" "trace s' = trace s @ [Call_redispatchBoxed]"
    using assms by (auto simp: step2_redispatch_def Let_def)
  moreover have "service_threw P m Call_redispatchBoxed"
    using Inl by (auto simp: service_threw_def)
  ultimately show ?thesis by (simp add: thrown_by_last_call_def)
next
  case (Inr p)
  then show ?thesis using assms by (auto simp: step2_redispatch_def Let_def split: prod.splits)
qed

lemma step3_copy_back_error:
  "step3_copy_back P A ta ti cpu is s = (Some e, s') \<Longrightarrow> thrown_by_last_call P e s'"
proof (induction "is" arbitrary: s)
  case Nil
  then show ?case by simp
next
  case (Cons i "is")
  show ?case
  proof (cases "is_write_alias (alias_info (A ! (ti ! i)))")
    case True
    show ?thesis
    proof (cases "at_copy_from_and_resize P (cpu ! i) (ta ! i) (heap s)")
      case (Inl m)
      then have "e = Failure m"
        "trace s' = trace s @ [Call_copy_from_and_resize (cpu ! i) (ta ! i)]"
        using Cons.prems True by (auto simp: Let_def)
      then show ?thesis using Inl by (auto simp: thrown_by_last_call_def service_threw_def)
    next
      case (Inr h)
      then have "step3_copy_back P A ta ti cpu is
          (s\<lparr>trace := trace s @ [Call_copy_from_and_resize (cpu ! i) (ta ! i)], heap := h\<rparr>) =
          (Some e, s')"
        using Cons.prems True by (simp add: Let_def)
      from Cons.IH[OF this] show ?thesis .
    qed
  next
    case False
    then show ?thesis using Cons by (simp add: Let_def)
  qed
qed

lemma steps_1_to_3_error:
  assumes "steps_1_to_3 P schema s = (Inl e, s')"
  shows "e = InvalidSlice \<or> e = OutOfRange ''cpu_valid_tensors'' \<or> thrown_by_last_call P e s'"
proof (cases "length (stack s) < length (arguments schema)")
  case True
  then show ?thesis using assms by (simp add: steps_1_to_3_def steps_1_to_2_def)
next
  case False
  let ?ab = "length (stack s) - length (arguments schema)"
  obtain r1 s1 where g: "step1_gather P ?ab [0..<length (arguments schema)] ([], []) s = (r1, s1)"
    by (cases "step1_gather P ?ab [0..<length (arguments schema)] ([], []) s")
  show ?thesis
  proof (cases r1)
    case (Inl e1)
    then have "e1 = e" "s1 = s'" using assms False g by (auto simp: steps_1_to_3_def steps_1_to_2_def)
    then show ?thesis using step1_gather_error g Inl by blast
  next
    case (Inr p)
    obtain ta ti where p: "p = (ta, ti)" by (cases p)
    obtain r2 s2 where c: "to_cpu P ta s1 = (r2, s2)" by (cases "to_cpu P ta s1")
    show ?thesis
    proof (cases r2)
      case (Inl e2)
      then have "e2 = e" "s2 = s'" using assms False g Inr p c by (auto simp: steps_1_to_3_def steps_1_to_2_def)
      then show ?thesis using to_cpu_error c Inl by blast
    next
      case (Inr cpu)
      define s3 where "s3 = s2\<lparr>stack := step1_put ?ab ti cpu [0..<length ti] (stack s2)\<rparr>"
      obtain r4 s4 where d: "step2_redispatch P s3 = (r4, s4)" by (cases "step2_redispatch P s3")
      show ?thesis
      proof (cases r4)
        case (Some e4)
        then have "e4 = e" "s4 = s'" using assms False g \<open>r1 = Inr p\<close> p c Inr d
          by (auto simp: steps_1_to_3_def steps_1_to_2_def s3_def Let_def)
        then show ?thesis using step2_redispatch_error d Some by blast
      next
        case None
        obtain r5 s5 where b: "step3_copy_back P (arguments schema) ta ti cpu [0..<length ti] s4 = (r5, s5)"
          by (cases "step3_copy_back P (arguments schema) ta ti cpu [0..<length ti] s4")
        have "r5 = Some e \<and> s5 = s'" using assms False g \<open>r1 = Inr p\<close> p c Inr d None b
          by (cases r5) (auto simp: steps_1_to_3_def steps_1_to_2_def s3_def Let_def)
        then show ?thesis using step3_copy_back_error b by blast
      qed
    qed
  qed
qed

lemma copy_case_error:
  assumes "copy_case P ta rb idx rt s = (Some e, s')"
  shows "(e = OutOfRange ''tensor_args'' \<and> ta = []) \<or> e = NoDevice \<or> thrown_by_last_call P e s'"
proof (cases "first_arg_device (heap s) ta")
  case (Inl e1)
  then have "e1 = e" using assms by (auto simp: copy_case_def)
  then show ?thesis using Inl
    by (auto simp: first_arg_device_def tensor_device_def split: if_splits tensor.splits)
next
  case (Inr d)
  then show ?thesis using assms
    by (auto simp: copy_case_def Let_def thrown_by_last_call_def service_threw_def
        split: sum.splits)
qed

lemma resolve_return_error:
  assumes "resolve_return P schema ta ti cpu rb idx s = (Some e, s')"
  shows "(e = OutOfRange ''tensor_args'' \<and> ta = []) \<or> e = NoDevice \<or>
         e = SchemaInconsistency (operator_name schema) (returns schema ! idx) \<or>
         thrown_by_last_call P e s'"
proof -
  have c: "copy_case P ta rb idx rt s1 = (Some e, s') \<Longrightarrow>
      (e = OutOfRange ''tensor_args'' \<and> ta = []) \<or> e = NoDevice \<or> thrown_by_last_call P e s'"
    for rt s1 by (rule copy_case_error)
  have f: "first_arg_device (heap s) ta = Inl e \<Longrightarrow>
      (e = OutOfRange ''tensor_args'' \<and> ta = []) \<or> e = NoDevice"
    by (auto simp: first_arg_device_def tensor_device_def split: if_splits tensor.splits)
  show ?thesis using assms c f
    by (auto simp: resolve_return_def Let_def
        split: ivalue.splits if_splits option.splits sum.splits)
qed

lemma step4_returns_error:
  "step4_returns P schema ta ti cpu rb is s = (Some e, s') \<Longrightarrow>
     (e = OutOfRange ''tensor_args'' \<and> ta = []) \<or> e = NoDevice \<or>
     (\<exists>idx\<in>set is. e = SchemaInconsistency (operator_name schema) (returns schema ! idx)) \<or>
     thrown_by_last_call P e s'"
proof (induction "is" arbitrary: s)
  case Nil
  then show ?case by simp
next
  case (Cons idx "is")
  obtain r1 s1 where rr: "resolve_return P schema ta ti cpu rb idx s = (r1, s1)"
    by (cases "resolve_return P schema ta ti cpu rb idx s")
  show ?case
  proof (cases r1)
    case None
    then have "step4_returns P schema ta ti cpu rb is s1 = (Some e, s')"
      using Cons.prems rr by simp
    from Cons.IH[OF this] show ?thesis by auto
  next
    case (Some e1)
    then have "e1 = e" "s1 = s'" using Cons.prems rr by auto
    then show ?thesis using resolve_return_error rr Some by fastforce
  qed
qed

lemma cpu_fallback_error:
  assumes "cpu_fallback P schema s0 = (Some e, s')"
  shows "e = InvalidSlice \<or> e = NoDevice \<or> e = OutOfRange ''cpu_valid_tensors'' \<or>
         (e = OutOfRange ''tensor_args'' \<and>
          (\<forall>idx<length (arguments schema).
             \<not> isTensor (stack s0 ! (length (stack s0) - length (arguments schema) + idx)))) \<or>
         (\<exists>idx<length (returns schema).
            e = SchemaInconsistency (operator_name schema) (returns schema ! idx)) \<or>
         thrown_by_last_call P e s'"
proof -
  obtain r5 s5 where a: "steps_1_to_3 P schema s0 = (r5, s5)" by (cases "steps_1_to_3 P schema s0")
  show ?thesis
  proof (cases r5)
    case (Inl e5)
    then have "e5 = e" "s5 = s'" using assms a by (auto simp: cpu_fallback_def)
    then show ?thesis using steps_1_to_3_error a Inl by blast
  next
    case (Inr p)
    obtain ta ti cpu where p: "p = (ta, ti, cpu)" by (cases p)
    note S = steps_1_to_3_success[OF a[unfolded Inr p]]
    show ?thesis
    proof (cases "length (stack s5) < length (returns schema)")
      case True
      then show ?thesis using assms a Inr p by (simp add: cpu_fallback_def)
    next
      case False
      then have "step4_returns P schema ta ti cpu (length (stack s5) - length (returns schema))
          [0..<length (returns schema)] s5 = (Some e, s')"
        using assms a Inr p by (simp add: cpu_fallback_def Let_def)
      from step4_returns_error[OF this]
      consider "e = OutOfRange ''tensor_args''" "ta = []" | "e = NoDevice"
        | "\<exists>idx<length (returns schema).
            e = SchemaInconsistency (operator_name schema) (returns schema ! idx)"
        | "thrown_by_last_call P e s'" by (auto simp: Bex_def)
      then show ?thesis
      proof cases
        case 1
        then have "ti = []" using S(3) by simp
        then have "\<forall>idx<length (arguments schema).
             \<not> isTensor (stack s0 ! (length (stack s0) - length (arguments schema) + idx))"
          using S(2) by (auto simp: filter_empty_conv)
        then show ?thesis using 1 by simp
      qed auto
    qed
  qed
qed

lemmas example_defs2 =
  throwing_services_def ones_kernel_def ones_services_def ones_schema_def ones_state_def
  ones_state_step3_def

subsection \<open>Failures\<close>




lemma step4_returns_skip:
  assumes "\<forall>j\<in>set is. \<forall>t. stack s ! (rb + j) = ITensor t \<longrightarrow> \<not> defined t"
  shows "step4_returns P schema ta ti cpu rb is s = (None, s)"
  using assms
proof (induction "is")
  case Nil
  then show ?case by simp
next
  case (Cons j "is")
  have "resolve_return P schema ta ti cpu rb j s = (None, s)"
    using Cons.prems by (auto simp: resolve_return_def split: ivalue.splits)
  then show ?case using Cons by simp
qed

lemma resolve_return_no_args:
  assumes "stack s ! (rb + idx) = ITensor rt" and "defined rt"
    and "\<not> is_write_alias (alias_info (returns schema ! idx))"
  shows "resolve_return P schema [] ti cpu rb idx s = (Some (OutOfRange ''tensor_args''), s)"
  using assms by (simp add: resolve_return_def copy_case_def first_arg_device_def Let_def)

lemma ones_steps:
  "steps_1_to_3 ones_services ones_schema ones_state = (Inr ([], [], []), ones_state_step3)"
  by (simp add: model_defs example_defs example_defs2)

subsection \<open>The first recorded tensor argument\<close>

text \<open>
  Claim C8. When some argument of the call is a tensor, \<open>tensor_args\<close> is not empty after
  step 1, every read of \<open>tensor_args[0]\<close> is in bounds, and the call never ends in the
  out-of-range read. When no argument is a tensor and the first defined tensor among the
  returns is not a mutable alias, the call ends in that out-of-range read: no branch of
  the function handles it.
\<close>

theorem first_tensor_argument_access:
  "(has_tensor_argument schema (stack (s0 :: 'd state)) \<longrightarrow>
      fst (cpu_fallback P schema s0) \<noteq> Some (OutOfRange ''tensor_args'') \<and>
      (\<forall>tensor_args tensor_args_indices cpu_tensors s5.
         steps_1_to_3 P schema s0 = (Inr (tensor_args, tensor_args_indices, cpu_tensors), s5) \<longrightarrow>
         0 < length tensor_args \<and>
         (\<forall>h. first_arg_device h tensor_args = tensor_device h (tensor_args ! 0)))) \<and>
   (\<not> has_tensor_argument schema (stack s0) \<longrightarrow>
      (\<forall>tensor_args tensor_args_indices cpu_tensors s5 idx return_tens.
         steps_1_to_3 P schema s0 = (Inr (tensor_args, tensor_args_indices, cpu_tensors), s5) \<and>
         length (returns schema) \<le> length (stack s5) \<and> idx < length (returns schema) \<and>
         stack s5 ! (length (stack s5) - length (returns schema) + idx) = ITensor return_tens \<and>
         defined return_tens \<and> \<not> is_write_alias (alias_info (returns schema ! idx)) \<and>
         (\<forall>j<idx. \<forall>t. stack s5 ! (length (stack s5) - length (returns schema) + j) = ITensor t
              \<longrightarrow> \<not> defined t) \<longrightarrow>
         cpu_fallback P schema s0 = (Some (OutOfRange ''tensor_args''), s5)))"
proof (intro conjI impI allI)
  assume h: "has_tensor_argument schema (stack s0)"
  show "fst (cpu_fallback P schema s0) \<noteq> Some (OutOfRange ''tensor_args'')"
  proof
    assume "fst (cpu_fallback P schema s0) = Some (OutOfRange ''tensor_args'')"
    then obtain s' where "cpu_fallback P schema s0 = (Some (OutOfRange ''tensor_args''), s')"
      by (cases "cpu_fallback P schema s0") auto
    from cpu_fallback_error[OF this] h show False
      by (auto simp: has_tensor_argument_def thrown_by_last_call_def)
  qed
next
  fix ta ti cpu s5
  assume h: "has_tensor_argument schema (stack s0)"
    and st: "steps_1_to_3 P schema s0 = (Inr (ta, ti, cpu), s5)"
  note S = steps_1_to_3_success[OF st]
  have "ti \<noteq> []" using h unfolding S(2) has_tensor_argument_def
    by (auto simp: filter_empty_conv)
  then show "0 < length ta" using S(3) by auto
  then show "first_arg_device h' ta = tensor_device h' (ta ! 0)" for h'
    by (simp add: first_arg_device_def)
next
  fix ta ti cpu idx rt and s5 :: "'d state"
  let ?n = "length (returns schema)"
  let ?rb = "length (stack s5) - ?n"
  assume h: "\<not> has_tensor_argument schema (stack s0)"
    and a: "steps_1_to_3 P schema s0 = (Inr (ta, ti, cpu), s5) \<and>
         ?n \<le> length (stack s5) \<and> idx < ?n \<and>
         stack s5 ! (?rb + idx) = ITensor rt \<and>
         defined rt \<and> \<not> is_write_alias (alias_info (returns schema ! idx)) \<and>
         (\<forall>j<idx. \<forall>t. stack s5 ! (?rb + j) = ITensor t \<longrightarrow> \<not> defined t)"
  then have st: "steps_1_to_3 P schema s0 = (Inr (ta, ti, cpu), s5)" by simp
  note S = steps_1_to_3_success[OF st]
  have "ti = []" using h unfolding S(2) has_tensor_argument_def
    by (auto simp: filter_empty_conv)
  then have ta: "ta = []" using S(3) by simp
  have pre: "step4_returns P schema ta ti cpu ?rb [0..<idx] s5 = (None, s5)"
    using a by (intro step4_returns_skip) auto
  have at: "resolve_return P schema ta ti cpu ?rb idx s5 = (Some (OutOfRange ''tensor_args''), s5)"
    using a ta resolve_return_no_args by blast
  have "cpu_fallback P schema s0 =
      step4_returns P schema ta ti cpu ?rb ([0..<idx] @ idx # [Suc idx..<?n]) s5"
    using st a upt_split[of idx ?n] by (simp add: cpu_fallback_def Let_def)
  then show "cpu_fallback P schema s0 = (Some (OutOfRange ''tensor_args''), s5)"
    using pre at by (simp add: step4_append)
qed

text \<open>The call of \<open>add_\<close>, and the call of an operator that takes an integer only.\<close>

theorem first_tensor_argument_access_witness:
  "fst (cpu_fallback add_services add_schema add_state) \<noteq> Some (OutOfRange ''tensor_args'') \<and>
   first_arg_device (heap add_state) [Defined 0, Defined 1] =
     tensor_device (heap add_state) ([Defined 0, Defined 1] ! 0) \<and>
   cpu_fallback ones_services ones_schema ones_state =
     (Some (OutOfRange ''tensor_args''), ones_state_step3)"
proof -
  have yes: "has_tensor_argument add_schema (stack add_state)"
    unfolding has_tensor_argument_def
    by (rule exI[of _ 0]) (simp add: example_defs isTensor_def)
  have no: "\<not> has_tensor_argument ones_schema (stack ones_state)"
    by (simp add: has_tensor_argument_def example_defs2 isTensor_def)
  have ret: "length (returns ones_schema) \<le> length (stack ones_state_step3) \<and>
      0 < length (returns ones_schema) \<and>
      stack ones_state_step3 !
        (length (stack ones_state_step3) - length (returns ones_schema) + 0) = ITensor (Defined 0) \<and>
      defined (Defined 0) \<and> \<not> is_write_alias (alias_info (returns ones_schema ! 0)) \<and>
      (\<forall>j<0. \<forall>t. stack ones_state_step3 !
         (length (stack ones_state_step3) - length (returns ones_schema) + j) = ITensor t
           \<longrightarrow> \<not> defined t)"
    by (simp add: example_defs2 is_write_alias_def)
  note A = first_tensor_argument_access[of add_schema add_state add_services]
  note B = first_tensor_argument_access[of ones_schema ones_state ones_services]
  have "fst (cpu_fallback add_services add_schema add_state) \<noteq> Some (OutOfRange ''tensor_args'')"
    using A yes by blast
  moreover have "first_arg_device (heap add_state) [Defined 0, Defined 1] =
     tensor_device (heap add_state) ([Defined 0, Defined 1] ! 0)"
    using A yes add_steps by blast
  moreover have "cpu_fallback ones_services ones_schema ones_state =
     (Some (OutOfRange ''tensor_args''), ones_state_step3)"
    using B no ones_steps ret by blast
  ultimately show ?thesis by blast
qed













subsection \<open>Returns that are copied to the device\<close>





subsection \<open>Step 3\<close>












subsection \<open>Mutable aliases among the arguments\<close>



end
